theory Spec2Isabelle
  imports Main "HOL-Library.Sublist"
begin

section \<open>Data model\<close>

text \<open>
  The module \<open>text_splitter.py\<close> splits a Python \<open>str\<close> into chunks
  \<open>(start_index, chunk_text, token_count)\<close>. A Python string is a sequence of Unicode
  code points, so a text is a list of code points (natural numbers); \<open>len\<close> is
  \<open>length\<close> and \<open>"".join\<close> is \<open>concat\<close>.
\<close>

type_synonym codepoint = nat
type_synonym str = "codepoint list"
type_synonym chunk = "nat \<times> str \<times> nat"

text \<open>
  The Unicode property tables consulted through the \<open>regex\<close> library (\<open>\p{Zl}\<close>,
  \<open>\p{Zp}\<close>, \<open>\p{STerm}\<close>, \<open>\p{Po}\<close>, \<open>\p{Zs}\<close>) and by \<open>str.strip\<close>
  (\<open>str.isspace\<close>) are not part of the module; they are parameters of the model.
\<close>

record unicode =
  Zl :: "codepoint \<Rightarrow> bool"
  Zp :: "codepoint \<Rightarrow> bool"
  STerm :: "codepoint \<Rightarrow> bool"
  Po :: "codepoint \<Rightarrow> bool"
  Zs :: "codepoint \<Rightarrow> bool"
  isspace :: "codepoint \<Rightarrow> bool"

text \<open>
  The tokenizer is the caller's object. The module only observes the length of
  \<open>tokenizer.encode(segment, add_special_tokens=True, truncation=True, max_length=m)\<close>,
  so a tokenizer is a function from the segment and \<open>m\<close> to that length; \<open>None\<close> is a
  call that raises.
\<close>

type_synonym tokenizer = "str \<Rightarrow> nat \<Rightarrow> nat option"

text \<open>
  Every \<open>raise\<close> of the module is a \<open>ValueError\<close> with a message; an exception of the
  tokenizer propagates unchanged.
\<close>

datatype error = ValueError string | TokenizerError

text \<open>
  The argument \<open>max_tokens\<close> is checked with \<open>isinstance(max_tokens, int)\<close>, so the model
  distinguishes an \<open>int\<close> from a value of any other type.
\<close>

datatype py_value = PyInt int | PyOther

abbreviation (input) PARAGRAPH_SEPARATOR_WEIGHT :: nat where "PARAGRAPH_SEPARATOR_WEIGHT \<equiv> 4"
abbreviation (input) SENTENCE_TERMINATOR_WEIGHT :: nat where "SENTENCE_TERMINATOR_WEIGHT \<equiv> 3"
abbreviation (input) OTHER_PUNCTUATION_WEIGHT :: nat where "OTHER_PUNCTUATION_WEIGHT \<equiv> 2"
abbreviation (input) SPACE_WEIGHT :: nat where "SPACE_WEIGHT \<equiv> 1"
abbreviation (input) NO_WEIGHT :: nat where "NO_WEIGHT \<equiv> 0"

section \<open>The separator classifier\<close>

text \<open>
  \<open>get_weight\<close>: the first matching class wins; \<open>\n\<close> is U+000A and \<open>\r\<close> is U+000D.
  The \<open>lru_cache\<close> memoises a pure function and is not modelled.
\<close>

definition get_weight :: "unicode \<Rightarrow> codepoint \<Rightarrow> nat" where
  "get_weight U char =
     (if char = 0x0A \<or> char = 0x0D \<or> Zl U char \<or> Zp U char then PARAGRAPH_SEPARATOR_WEIGHT
      else if STerm U char then SENTENCE_TERMINATOR_WEIGHT
      else if Po U char then OTHER_PUNCTUATION_WEIGHT
      else if Zs U char then SPACE_WEIGHT
      else NO_WEIGHT)"

section \<open>The token counter\<close>

definition get_token_count :: "tokenizer \<Rightarrow> nat \<Rightarrow> str \<Rightarrow> error + nat" where
  "get_token_count tokenizer max_tokens segment =
     (case tokenizer segment (max_tokens + 1) of
        None \<Rightarrow> Inl TokenizerError
      | Some n \<Rightarrow> Inr n)"

section \<open>The recursive splitter\<close>

text \<open>Python's \<open>xs[a:b]\<close> for indices \<open>0 \<le> a\<close>, \<open>0 \<le> b\<close>.\<close>

definition slice :: "'a list \<Rightarrow> nat \<Rightarrow> nat \<Rightarrow> 'a list" where
  "slice xs a b = drop a (take b xs)"

text \<open>The local variables of \<open>split_by_weight\<close> that the scanning loop updates.\<close>

record scan_state =
  chunks :: "chunk list"
  current_pos :: nat
  current_chunk :: "str list"
  current_chunk_tokens :: nat
  current_chunk_start :: nat

text \<open>
  One iteration of \<open>while i < len(text)\<close> (without the final \<open>i += 1\<close>). The recursive
  call \<open>split_by_weight(segment, weight - 1, current_chunk_start)\<close> is the parameter
  \<open>sub\<close>, applied to the segment and the start index.
\<close>

definition scan_step ::
  "(str \<Rightarrow> nat \<Rightarrow> error + chunk list) \<Rightarrow> unicode \<Rightarrow> tokenizer \<Rightarrow> nat \<Rightarrow> str \<Rightarrow> nat \<Rightarrow> nat
     \<Rightarrow> scan_state \<Rightarrow> error + scan_state" where
  "scan_step sub U tokenizer max_tokens text weight i st =
     (let char = text ! i; char_weight = get_weight U char in
      if char_weight \<ge> weight then
        (let segment = slice text (current_pos st) (i + 1) in
         case get_token_count tokenizer max_tokens segment of
           Inl e \<Rightarrow> Inl e
         | Inr segment_tokens \<Rightarrow>
             if current_chunk_tokens st + segment_tokens \<le> max_tokens then
               Inr (st\<lparr>current_chunk := current_chunk st @ [segment],
                       current_chunk_tokens := current_chunk_tokens st + segment_tokens,
                       current_pos := i + 1\<rparr>)
             else
               (let st1 =
                  (if current_chunk st \<noteq> [] then
                     st\<lparr>chunks := chunks st @
                          [(current_chunk_start st, concat (current_chunk st),
                            current_chunk_tokens st)],
                        current_chunk_start :=
                          current_chunk_start st + length (concat (current_chunk st)),
                        current_chunk := [],
                        current_chunk_tokens := 0\<rparr>
                   else st)
                in
                if segment_tokens > max_tokens \<and> weight > NO_WEIGHT then
                  (case sub segment (current_chunk_start st1) of
                     Inl e \<Rightarrow> Inl e
                   | Inr sub_chunks \<Rightarrow>
                       Inr (st1\<lparr>chunks := chunks st1 @ sub_chunks,
                                current_chunk_start := current_chunk_start st1 + length segment,
                                current_pos := i + 1\<rparr>))
                else if segment_tokens \<le> max_tokens then
                  Inr (st1\<lparr>current_chunk := current_chunk st1 @ [segment],
                           current_chunk_tokens := segment_tokens,
                           current_pos := i + 1\<rparr>)
                else
                  Inl (ValueError
                    ''Cannot split segment within token limit; consider increasing max_tokens'')))
      else Inr st)"

text \<open>The loop \<open>while i < len(text): ...; i += 1\<close>.\<close>

function scan ::
  "(str \<Rightarrow> nat \<Rightarrow> error + chunk list) \<Rightarrow> unicode \<Rightarrow> tokenizer \<Rightarrow> nat \<Rightarrow> str \<Rightarrow> nat \<Rightarrow> nat
     \<Rightarrow> scan_state \<Rightarrow> error + scan_state" where
  "scan sub U tokenizer max_tokens text weight i st =
     (if i < length text then
        (case scan_step sub U tokenizer max_tokens text weight i st of
           Inl e \<Rightarrow> Inl e
         | Inr st' \<Rightarrow> scan sub U tokenizer max_tokens text weight (i + 1) st')
      else Inr st)"
  by pat_completeness auto
termination
  by (relation "measure (\<lambda>(sub, U, tokenizer, max_tokens, text, weight, i, st). length text - i)")
     auto

declare scan.simps [simp del]

text \<open>
  The block \<open># Handle remaining text\<close>. Unlike the loop, it does not empty
  \<open>current_chunk\<close> after appending it to \<open>chunks\<close>.
\<close>

definition handle_remaining ::
  "(str \<Rightarrow> nat \<Rightarrow> error + chunk list) \<Rightarrow> tokenizer \<Rightarrow> nat \<Rightarrow> str \<Rightarrow> nat
     \<Rightarrow> scan_state \<Rightarrow> error + scan_state" where
  "handle_remaining sub tokenizer max_tokens text weight st =
     (if current_pos st < length text then
        (let remaining = drop (current_pos st) text in
         case get_token_count tokenizer max_tokens remaining of
           Inl e \<Rightarrow> Inl e
         | Inr remaining_tokens \<Rightarrow>
             if current_chunk_tokens st + remaining_tokens \<le> max_tokens then
               Inr (st\<lparr>current_chunk := current_chunk st @ [remaining],
                       current_chunk_tokens := current_chunk_tokens st + remaining_tokens\<rparr>)
             else
               (let st1 =
                  (if current_chunk st \<noteq> [] then
                     st\<lparr>chunks := chunks st @
                          [(current_chunk_start st, concat (current_chunk st),
                            current_chunk_tokens st)],
                        current_chunk_start :=
                          current_chunk_start st + length (concat (current_chunk st))\<rparr>
                   else st)
                in
                if remaining_tokens > max_tokens \<and> weight > NO_WEIGHT then
                  (case sub remaining (current_chunk_start st1) of
                     Inl e \<Rightarrow> Inl e
                   | Inr sub_chunks \<Rightarrow> Inr (st1\<lparr>chunks := chunks st1 @ sub_chunks\<rparr>))
                else if remaining_tokens \<le> max_tokens then
                  Inr (st1\<lparr>chunks := chunks st1 @
                             [(current_chunk_start st1, remaining, remaining_tokens)]\<rparr>)
                else
                  Inl (ValueError
                    ''Cannot split remaining text within token limit; consider increasing max_tokens'')))
      else Inr st)"

text \<open>
  The body of \<open>split_by_weight(text, weight, start_idx)\<close>: initialise, scan, handle the
  remaining text, add the final chunk.
\<close>

definition split_level ::
  "(str \<Rightarrow> nat \<Rightarrow> error + chunk list) \<Rightarrow> unicode \<Rightarrow> tokenizer \<Rightarrow> nat \<Rightarrow> str \<Rightarrow> nat \<Rightarrow> nat
     \<Rightarrow> error + chunk list" where
  "split_level sub U tokenizer max_tokens text weight start_idx =
     (case scan sub U tokenizer max_tokens text weight 0
             \<lparr>chunks = [], current_pos = 0, current_chunk = [], current_chunk_tokens = 0,
              current_chunk_start = start_idx\<rparr> of
        Inl e \<Rightarrow> Inl e
      | Inr st \<Rightarrow>
          (case handle_remaining sub tokenizer max_tokens text weight st of
             Inl e \<Rightarrow> Inl e
           | Inr st' \<Rightarrow>
               Inr (if current_chunk st' \<noteq> [] then
                      chunks st' @
                        [(current_chunk_start st', concat (current_chunk st'),
                          current_chunk_tokens st')]
                    else chunks st')))"

text \<open>
  \<open>split_by_weight\<close> recurses on \<open>weight - 1\<close>, and only under the guard
  \<open>weight > NO_WEIGHT\<close>: at weight 0 no recursive call is made, so the function handed
  to \<open>split_level\<close> there is never applied (lemma \<open>split_level_lowest\<close>).
\<close>

fun split_by_weight ::
  "unicode \<Rightarrow> tokenizer \<Rightarrow> nat \<Rightarrow> str \<Rightarrow> nat \<Rightarrow> nat \<Rightarrow> error + chunk list" where
  "split_by_weight U tokenizer max_tokens text 0 start_idx =
     split_level (\<lambda>segment start. Inr []) U tokenizer max_tokens text 0 start_idx"
| "split_by_weight U tokenizer max_tokens text (Suc weight) start_idx =
     split_level (\<lambda>segment start. split_by_weight U tokenizer max_tokens segment weight start)
       U tokenizer max_tokens text (Suc weight) start_idx"

section \<open>The optimizer\<close>

text \<open>
  One iteration of \<open>for j in range(len(current_text) - 1, 0, -1)\<close>; \<open>best\<close> is the pair
  \<open>(best_split_idx, best_split_weight)\<close>.
\<close>

definition try_split ::
  "unicode \<Rightarrow> tokenizer \<Rightarrow> nat \<Rightarrow> str \<Rightarrow> str \<Rightarrow> nat \<Rightarrow> nat option \<times> int
     \<Rightarrow> error + (nat option \<times> int)" where
  "try_split U tokenizer max_tokens current_text next_text j best =
     (let char_weight = int (get_weight U (current_text ! j)) in
      if char_weight > snd best then
        (let split_pos = j + 1 in
         if split_pos \<le> length current_text then
           (let potential_first = take split_pos current_text;
                potential_next = drop split_pos current_text @ next_text in
            case get_token_count tokenizer max_tokens potential_first of
              Inl e \<Rightarrow> Inl e
            | Inr potential_first_tokens \<Rightarrow>
                (case get_token_count tokenizer max_tokens potential_next of
                   Inl e \<Rightarrow> Inl e
                 | Inr potential_next_tokens \<Rightarrow>
                     if potential_first_tokens \<le> max_tokens
                        \<and> potential_next_tokens \<le> max_tokens
                     then Inr (Some split_pos, char_weight)
                     else Inr best))
         else Inr best)
      else Inr best)"

text \<open>The \<open>for\<close> loop: \<open>find_split \<dots> j best\<close> runs the iterations \<open>j, j - 1, \<dots>, 1\<close>.\<close>

primrec find_split ::
  "unicode \<Rightarrow> tokenizer \<Rightarrow> nat \<Rightarrow> str \<Rightarrow> str \<Rightarrow> nat \<Rightarrow> nat option \<times> int
     \<Rightarrow> error + (nat option \<times> int)" where
  "find_split U tokenizer max_tokens current_text next_text 0 best = Inr best"
| "find_split U tokenizer max_tokens current_text next_text (Suc j) best =
     (case try_split U tokenizer max_tokens current_text next_text (Suc j) best of
        Inl e \<Rightarrow> Inl e
      | Inr best' \<Rightarrow> find_split U tokenizer max_tokens current_text next_text j best')"

text \<open>
  The loop \<open>while i < len(chunks) - 1\<close> of \<open>optimize_chunks\<close>; it returns the (mutated)
  list \<open>chunks\<close>, the index \<open>i\<close> and the list \<open>optimized\<close>. The list is written
  \<open>chunks'\<close> here, \<open>chunks\<close> being a field of the scan state. The loop is only entered
  with at least two chunks, so \<open>len(chunks) - 1\<close> is not negative.
\<close>

function optimize_loop ::
  "unicode \<Rightarrow> tokenizer \<Rightarrow> nat \<Rightarrow> chunk list \<Rightarrow> nat \<Rightarrow> chunk list
     \<Rightarrow> error + (chunk list \<times> nat \<times> chunk list)" where
  "optimize_loop U tokenizer max_tokens chunks' i optimized =
     (if i < length chunks' - 1 then
        (case (chunks' ! i, chunks' ! (i + 1)) of
           ((current_start, current_text, current_tokens), (next_start, next_text, next_tokens)) \<Rightarrow>
             (let combined_text = current_text @ next_text in
              case get_token_count tokenizer max_tokens combined_text of
                Inl e \<Rightarrow> Inl e
              | Inr combined_tokens \<Rightarrow>
                  if combined_tokens \<le> max_tokens then
                    optimize_loop U tokenizer max_tokens chunks' (i + 2)
                      (optimized @ [(current_start, combined_text, combined_tokens)])
                  else
                    (case find_split U tokenizer max_tokens current_text next_text
                            (length current_text - 1) (None, - 1) of
                       Inl e \<Rightarrow> Inl e
                     | Inr (None, best_split_weight) \<Rightarrow>
                         optimize_loop U tokenizer max_tokens chunks' (i + 1)
                           (optimized @ [(current_start, current_text, current_tokens)])
                     | Inr (Some best_split_idx, best_split_weight) \<Rightarrow>
                         (let first_part = take best_split_idx current_text in
                          case get_token_count tokenizer max_tokens first_part of
                            Inl e \<Rightarrow> Inl e
                          | Inr first_tokens \<Rightarrow>
                              (let second_part = drop best_split_idx current_text @ next_text in
                               case get_token_count tokenizer max_tokens second_part of
                                 Inl e \<Rightarrow> Inl e
                               | Inr second_tokens \<Rightarrow>
                                   optimize_loop U tokenizer max_tokens
                                     (chunks'[i + 1 :=
                                        (current_start + best_split_idx, second_part,
                                         second_tokens)])
                                     (i + 1)
                                     (optimized @ [(current_start, first_part, first_tokens)]))))))
      else Inr (chunks', i, optimized))"
  by pat_completeness auto
termination
  by (relation "measure (\<lambda>(U, tokenizer, max_tokens, chunks', i, optimized). length chunks' - i)")
     auto

declare optimize_loop.simps [simp del]

text \<open>\<open>s.strip()\<close>: leading and trailing whitespace removed.\<close>

definition strip :: "unicode \<Rightarrow> str \<Rightarrow> str" where
  "strip U s = rev (dropWhile (isspace U) (rev (dropWhile (isspace U) s)))"

definition optimize_chunks ::
  "unicode \<Rightarrow> tokenizer \<Rightarrow> nat \<Rightarrow> chunk list \<Rightarrow> error + chunk list" where
  "optimize_chunks U tokenizer max_tokens chunks' =
     (if length chunks' \<le> 1 then Inr chunks'
      else
        (case optimize_loop U tokenizer max_tokens chunks' 0 [] of
           Inl e \<Rightarrow> Inl e
         | Inr (chunks'', i, optimized) \<Rightarrow>
             (let optimized1 = (if i < length chunks'' then optimized @ [chunks'' ! i] else optimized)
              in
              if length optimized1 \<noteq> 0 \<and> strip U (fst (snd (last optimized1))) = []
              then Inr (butlast optimized1)
              else Inr optimized1)))"

section \<open>The entry point\<close>

definition split_text_into_chunks ::
  "unicode \<Rightarrow> str \<Rightarrow> tokenizer \<Rightarrow> py_value \<Rightarrow> bool \<Rightarrow> error + chunk list" where
  "split_text_into_chunks U text tokenizer max_tokens optimize =
     (case max_tokens of
        PyOther \<Rightarrow> Inl (ValueError ''max_tokens must be a positive integer'')
      | PyInt n \<Rightarrow>
          if n \<le> 0 then Inl (ValueError ''max_tokens must be a positive integer'')
          else
            (case split_by_weight U tokenizer (nat n) text PARAGRAPH_SEPARATOR_WEIGHT 0 of
               Inl e \<Rightarrow> Inl e
             | Inr initial_chunks \<Rightarrow>
                 if optimize then optimize_chunks U tokenizer (nat n) initial_chunks
                 else Inr initial_chunks))"

section \<open>Concrete inputs\<close>

text \<open>
  The Unicode tables restricted to ASCII (no ASCII code point is in \<open>Zl\<close> or \<open>Zp\<close>;
  \<open>STerm\<close> holds \<open>! . ?\<close>; \<open>Zs\<close> is the space), used for the concrete runs below.
\<close>

definition ascii_unicode :: unicode where
  "ascii_unicode =
     \<lparr>Zl = (\<lambda>c. False),
      Zp = (\<lambda>c. False),
      STerm = (\<lambda>c. c \<in> {0x21, 0x2E, 0x3F}),
      Po = (\<lambda>c. c \<in> {0x21, 0x22, 0x23, 0x25, 0x26, 0x27, 0x2A, 0x2C, 0x2E, 0x2F, 0x3A, 0x3B,
                     0x3F, 0x40, 0x5C}),
      Zs = (\<lambda>c. c = 0x20),
      isspace = (\<lambda>c. c \<in> {0x09, 0x0A, 0x0B, 0x0C, 0x0D, 0x1C, 0x1D, 0x1E, 0x1F, 0x20})\<rparr>"

text \<open>
  A tokenizer that emits \<open>special\<close> special tokens and one token per code point, and
  truncates at \<open>max_length\<close>.
\<close>

definition counting_tokenizer :: "nat \<Rightarrow> tokenizer" where
  "counting_tokenizer special segment max_length = Some (min (length segment + special) max_length)"

text \<open>A tokenizer that raises on every call.\<close>

definition failing_tokenizer :: tokenizer where
  "failing_tokenizer segment max_length = None"

text \<open>
  A tokenizer that needs two tokens for the lone letter \<open>a\<close> (U+0061) and one token for
  every other segment.
\<close>

definition merging_tokenizer :: tokenizer where
  "merging_tokenizer segment max_length = Some (min (if segment = [0x61] then 2 else 1) max_length)"

section \<open>Vocabulary of the properties\<close>

abbreviation (input) start_offset :: "chunk \<Rightarrow> nat" where "start_offset c \<equiv> fst c"
abbreviation (input) chunk_text :: "chunk \<Rightarrow> str" where "chunk_text c \<equiv> fst (snd c)"
abbreviation (input) token_count :: "chunk \<Rightarrow> nat" where "token_count c \<equiv> snd (snd c)"

text \<open>The sum of the token counts of a list of segments, each counted on its own.\<close>

primrec total_count :: "tokenizer \<Rightarrow> nat \<Rightarrow> str list \<Rightarrow> error + nat" where
  "total_count tokenizer max_tokens [] = Inr 0"
| "total_count tokenizer max_tokens (s # ss) =
     (case get_token_count tokenizer max_tokens s of
        Inl e \<Rightarrow> Inl e
      | Inr k \<Rightarrow>
          (case total_count tokenizer max_tokens ss of
             Inl e \<Rightarrow> Inl e
           | Inr n \<Rightarrow> Inr (k + n)))"

text \<open>
  A chunk is accounted for when its text is the concatenation of segments whose separate
  token counts add up to its \<open>token_count\<close>.
\<close>

definition chunk_accounted :: "tokenizer \<Rightarrow> nat \<Rightarrow> chunk \<Rightarrow> bool" where
  "chunk_accounted tokenizer max_tokens c \<longleftrightarrow>
     (\<exists>segments. concat segments = chunk_text c
        \<and> total_count tokenizer max_tokens segments = Inr (token_count c))"

definition chunk_ok :: "tokenizer \<Rightarrow> nat \<Rightarrow> chunk \<Rightarrow> bool" where
  "chunk_ok tokenizer max_tokens c \<longleftrightarrow>
     token_count c \<le> max_tokens \<and> chunk_accounted tokenizer max_tokens c"

definition state_ok :: "tokenizer \<Rightarrow> nat \<Rightarrow> scan_state \<Rightarrow> bool" where
  "state_ok tokenizer max_tokens st \<longleftrightarrow>
     list_all (chunk_ok tokenizer max_tokens) (chunks st)
     \<and> current_chunk_tokens st \<le> max_tokens
     \<and> total_count tokenizer max_tokens (current_chunk st) = Inr (current_chunk_tokens st)"

text \<open>
  A split position \<open>p\<close> of the pair \<open>(current_text, next_text)\<close> is valid when both
  \<open>current_text[:p]\<close> and \<open>current_text[p:] + next_text\<close> are counted within the budget.
\<close>

definition valid_split :: "tokenizer \<Rightarrow> nat \<Rightarrow> str \<Rightarrow> str \<Rightarrow> nat \<Rightarrow> bool" where
  "valid_split tokenizer max_tokens current_text next_text p \<longleftrightarrow>
     (case get_token_count tokenizer max_tokens (take p current_text) of
        Inl e \<Rightarrow> False
      | Inr a \<Rightarrow>
          a \<le> max_tokens \<and>
          (case get_token_count tokenizer max_tokens (drop p current_text @ next_text) of
             Inl e \<Rightarrow> False
           | Inr b \<Rightarrow> b \<le> max_tokens))"


text \<open>
  The recursion of \<open>split_by_weight\<close> unrolled to a given depth: a call nested deeper than
  \<open>depth\<close> levels is handed to \<open>deeper\<close> instead of being executed.
\<close>

primrec split_unrolled ::
  "nat \<Rightarrow> (str \<Rightarrow> nat \<Rightarrow> nat \<Rightarrow> error + chunk list) \<Rightarrow> unicode \<Rightarrow> tokenizer \<Rightarrow> nat
     \<Rightarrow> str \<Rightarrow> nat \<Rightarrow> nat \<Rightarrow> error + chunk list" where
  "split_unrolled 0 deeper U tokenizer max_tokens text weight start_idx =
     deeper text weight start_idx"
| "split_unrolled (Suc depth) deeper U tokenizer max_tokens text weight start_idx =
     split_level
       (\<lambda>segment start. split_unrolled depth deeper U tokenizer max_tokens segment (weight - 1) start)
       U tokenizer max_tokens text weight start_idx"

text \<open>The two \<open>ValueError\<close>s raised when a span cannot be split any further.\<close>

definition unsplittable_error :: "error \<Rightarrow> bool" where
  "unsplittable_error e \<longleftrightarrow>
     e = ValueError ''Cannot split segment within token limit; consider increasing max_tokens''
     \<or> e = ValueError
           ''Cannot split remaining text within token limit; consider increasing max_tokens''"



text \<open>
  The tokenizer never raises (for the \<open>max_length\<close> the module passes).
\<close>

definition never_fails :: "tokenizer \<Rightarrow> nat \<Rightarrow> bool" where
  "never_fails tokenizer max_tokens \<longleftrightarrow>
     (\<forall>segment. \<exists>k. get_token_count tokenizer max_tokens segment = Inr k)"

text \<open>
  A character of the text is unfit when every contiguous span of the text that contains
  it is counted above \<open>max_tokens\<close>: no chunk could hold it.
\<close>

definition unfit_char :: "tokenizer \<Rightarrow> nat \<Rightarrow> str \<Rightarrow> codepoint \<Rightarrow> bool" where
  "unfit_char tokenizer max_tokens text c \<longleftrightarrow>
     c \<in> set text
     \<and> (\<forall>span. sublist span text \<and> c \<in> set span \<longrightarrow>
           (\<exists>k. get_token_count tokenizer max_tokens span = Inr k \<and> max_tokens < k))"

section \<open>Basic facts\<close>

lemma split_level_empty: "split_level sub U tokenizer max_tokens [] weight start_idx = Inr []"
  by (simp add: split_level_def scan.simps handle_remaining_def)

lemma split_by_weight_empty: "split_by_weight U tokenizer max_tokens [] weight start_idx = Inr []"
  by (cases weight) (simp_all add: split_level_empty)

lemma optimize_chunks_short:
  "length cs \<le> 1 \<Longrightarrow> optimize_chunks U tokenizer max_tokens cs = Inr cs"
  by (simp add: optimize_chunks_def)

section \<open>Configuration errors\<close>

text \<open>
  Claim C8. If \<open>max_tokens\<close> is not a positive integer (a value that is not an \<open>int\<close>, or
  an \<open>int\<close> that is at most 0), \<open>split_text_into_chunks\<close> raises the \<open>ValueError\<close>
  "max_tokens must be a positive integer", for every text, every optimize flag and
  every tokenizer. The tokenizer is arbitrary, so this covers the tokenizer that raises
  on every call: a call of the token counter before the check would surface as
  \<open>TokenizerError\<close>, and a partial output as an \<open>Inr\<close> value.
\<close>

theorem configuration_error_before_any_work:
  "max_tokens = PyOther \<or> (\<exists>n. max_tokens = PyInt n \<and> n \<le> 0) \<Longrightarrow>
   split_text_into_chunks U text tokenizer max_tokens optimize =
     Inl (ValueError ''max_tokens must be a positive integer'')"
  by (auto simp: split_text_into_chunks_def)

theorem configuration_error_before_any_work_witness:
  "split_text_into_chunks ascii_unicode [0x61, 0x0A, 0x62] failing_tokenizer (PyInt 0) True =
     Inl (ValueError ''max_tokens must be a positive integer'')
   \<and> split_text_into_chunks ascii_unicode [0x61, 0x0A, 0x62] failing_tokenizer (PyInt (- 3)) False =
     Inl (ValueError ''max_tokens must be a positive integer'')
   \<and> split_text_into_chunks ascii_unicode [0x61, 0x0A, 0x62] failing_tokenizer PyOther True =
     Inl (ValueError ''max_tokens must be a positive integer'')"
  using configuration_error_before_any_work
          [of "PyInt 0" ascii_unicode "[0x61, 0x0A, 0x62]" failing_tokenizer True]
        configuration_error_before_any_work
          [of "PyInt (- 3)" ascii_unicode "[0x61, 0x0A, 0x62]" failing_tokenizer False]
        configuration_error_before_any_work
          [of PyOther ascii_unicode "[0x61, 0x0A, 0x62]" failing_tokenizer True]
  by simp

section \<open>The empty text\<close>

text \<open>
  Claim C10. For the empty text, every positive \<open>max_tokens\<close>, both values of the
  optimize flag and every tokenizer, \<open>split_text_into_chunks\<close> returns the empty list.
  No error is raised, and the token counter is not called: the result is the same for
  the tokenizer that raises on every call.
\<close>

theorem empty_text_gives_no_chunks:
  "0 < n \<Longrightarrow> split_text_into_chunks U [] tokenizer (PyInt n) optimize = Inr []"
  by (simp add: split_text_into_chunks_def split_by_weight_empty optimize_chunks_short)

theorem empty_text_gives_no_chunks_witness:
  "split_text_into_chunks ascii_unicode [] failing_tokenizer (PyInt 7) True = Inr []
   \<and> split_text_into_chunks ascii_unicode [] failing_tokenizer (PyInt 7) False = Inr []"
  using empty_text_gives_no_chunks [of 7 ascii_unicode failing_tokenizer True]
        empty_text_gives_no_chunks [of 7 ascii_unicode failing_tokenizer False]
  by simp

section \<open>Token counts of the returned chunks\<close>

text \<open>
  The invariant of the splitter and the optimizer: every finished chunk is within the
  budget and accounted for, and so is the chunk under construction.
\<close>

lemma total_count_snoc:
  "total_count tk mt (ss @ [s]) =
     (case total_count tk mt ss of
        Inl e \<Rightarrow> Inl e
      | Inr n \<Rightarrow> (case get_token_count tk mt s of Inl e \<Rightarrow> Inl e | Inr k \<Rightarrow> Inr (n + k)))"
  by (induction ss) (auto split: sum.splits)

lemma chunk_ok_single:
  "get_token_count tk mt t = Inr n \<Longrightarrow> n \<le> mt \<Longrightarrow> chunk_ok tk mt (s, t, n)"
  unfolding chunk_ok_def chunk_accounted_def
  by (auto intro!: exI [of _ "[t]"])

lemma chunk_ok_joined:
  "total_count tk mt ss = Inr n \<Longrightarrow> n \<le> mt \<Longrightarrow> chunk_ok tk mt (s, concat ss, n)"
  unfolding chunk_ok_def chunk_accounted_def by auto

lemma scan_step_ok:
  assumes sub: "\<And>seg s cs. sub seg s = Inr cs \<Longrightarrow> list_all (chunk_ok tk mt) cs"
    and st: "state_ok tk mt st"
    and step: "scan_step sub U tk mt text w i st = Inr st'"
  shows "state_ok tk mt st'"
  using st step sub unfolding scan_step_def state_ok_def
  by (auto simp: Let_def total_count_snoc chunk_ok_joined split: sum.splits if_splits)

lemma scan_ok:
  "(\<And>seg s cs. sub seg s = Inr cs \<Longrightarrow> list_all (chunk_ok tk mt) cs) \<Longrightarrow>
   state_ok tk mt st \<Longrightarrow> scan sub U tk mt t w i st = Inr st' \<Longrightarrow> state_ok tk mt st'"
proof (induction sub U tk mt t w i st rule: scan.induct)
  case (1 sub U tk mt t w i st)
  show ?case
  proof (cases "i < length t")
    case True
    with "1.prems"(3) obtain st1 where s1: "scan_step sub U tk mt t w i st = Inr st1"
      and s2: "scan sub U tk mt t w (i + 1) st1 = Inr st'"
      by (subst (asm) scan.simps) (auto split: sum.splits)
    from scan_step_ok [OF "1.prems"(1) "1.prems"(2) s1] have "state_ok tk mt st1" .
    from "1.IH" [OF True s1 "1.prems"(1) this s2] show ?thesis .
  next
    case False
    with "1.prems" show ?thesis by (subst (asm) scan.simps) simp
  qed
qed

lemma handle_remaining_ok:
  assumes sub: "\<And>seg s cs. sub seg s = Inr cs \<Longrightarrow> list_all (chunk_ok tk mt) cs"
    and st: "state_ok tk mt st"
    and step: "handle_remaining sub tk mt text w st = Inr st'"
  shows "state_ok tk mt st'"
  using st step sub unfolding handle_remaining_def state_ok_def
  by (auto simp: Let_def total_count_snoc chunk_ok_joined chunk_ok_single split: sum.splits if_splits)

lemma split_level_ok:
  assumes sub: "\<And>seg s cs. sub seg s = Inr cs \<Longrightarrow> list_all (chunk_ok tk mt) cs"
    and res: "split_level sub U tk mt text w start = Inr cs"
  shows "list_all (chunk_ok tk mt) cs"
proof -
  let ?st0 = "\<lparr>chunks = [], current_pos = 0, current_chunk = [], current_chunk_tokens = 0,
              current_chunk_start = start\<rparr>"
  have ok0: "state_ok tk mt ?st0" by (simp add: state_ok_def)
  from res obtain st st' where a: "scan sub U tk mt text w 0 ?st0 = Inr st"
    and b: "handle_remaining sub tk mt text w st = Inr st'"
    and c: "cs = (if current_chunk st' \<noteq> [] then
                      chunks st' @
                        [(current_chunk_start st', concat (current_chunk st'),
                          current_chunk_tokens st')]
                    else chunks st')"
    unfolding split_level_def by (auto split: sum.splits)
  have "state_ok tk mt st" by (rule scan_ok [OF sub ok0 a])
  from handle_remaining_ok [OF sub this b] have "state_ok tk mt st'" .
  then show ?thesis unfolding c state_ok_def by (auto simp: chunk_ok_joined)
qed

lemma split_by_weight_ok:
  "split_by_weight U tk mt t w start = Inr cs \<Longrightarrow> list_all (chunk_ok tk mt) cs"
proof (induction w arbitrary: t start cs)
  case 0
  from "0.prems" have "split_level (\<lambda>segment start. Inr []) U tk mt t 0 start = Inr cs" by simp
  then show ?case by (rule split_level_ok [rotated]) auto
next
  case (Suc w)
  from Suc.prems
  have "split_level (\<lambda>segment start. split_by_weight U tk mt segment w start) U tk mt t (Suc w) start
          = Inr cs" by simp
  then show ?case by (rule split_level_ok [rotated]) (rule Suc.IH)
qed


lemma try_split_valid:
  "try_split U tk mt cur nxt j best = Inr best' \<Longrightarrow>
   (\<And>q. fst best = Some q \<Longrightarrow> valid_split tk mt cur nxt q) \<Longrightarrow>
   fst best' = Some p \<Longrightarrow> valid_split tk mt cur nxt p"
  unfolding try_split_def valid_split_def
  by (auto simp: Let_def split: sum.splits if_splits)

lemma find_split_valid:
  "find_split U tk mt cur nxt j best = Inr best' \<Longrightarrow>
   (\<And>q. fst best = Some q \<Longrightarrow> valid_split tk mt cur nxt q) \<Longrightarrow>
   fst best' = Some p \<Longrightarrow> valid_split tk mt cur nxt p"
proof (induction j arbitrary: best)
  case 0
  then show ?case by simp
next
  case (Suc j)
  from Suc.prems(1) obtain b where b: "try_split U tk mt cur nxt (Suc j) best = Inr b"
    and r: "find_split U tk mt cur nxt j b = Inr best'"
    by (auto split: sum.splits)
  show ?case
    by (rule Suc.IH [OF r _ Suc.prems(3)]) (rule try_split_valid [OF b Suc.prems(2)])
qed

lemma valid_split_counts:
  "valid_split tk mt cur nxt p \<Longrightarrow>
   \<exists>a b. get_token_count tk mt (take p cur) = Inr a \<and> a \<le> mt
        \<and> get_token_count tk mt (drop p cur @ nxt) = Inr b \<and> b \<le> mt"
  unfolding valid_split_def by (auto split: sum.splits)

lemma optimize_loop_step:
  assumes "i < length cs - 1" and "cs ! i = (s1, t1, n1)" and "cs ! (i + 1) = (s2, t2, n2)"
  shows "optimize_loop U tk mt cs i opt =
     (case get_token_count tk mt (t1 @ t2) of
        Inl e \<Rightarrow> Inl e
      | Inr ct \<Rightarrow>
          if ct \<le> mt then optimize_loop U tk mt cs (i + 2) (opt @ [(s1, t1 @ t2, ct)])
          else
            (case find_split U tk mt t1 t2 (length t1 - 1) (None, - 1) of
               Inl e \<Rightarrow> Inl e
             | Inr (None, bw) \<Rightarrow> optimize_loop U tk mt cs (i + 1) (opt @ [(s1, t1, n1)])
             | Inr (Some idx, bw) \<Rightarrow>
                 (case get_token_count tk mt (take idx t1) of
                    Inl e \<Rightarrow> Inl e
                  | Inr a \<Rightarrow>
                      (case get_token_count tk mt (drop idx t1 @ t2) of
                         Inl e \<Rightarrow> Inl e
                       | Inr b \<Rightarrow>
                           optimize_loop U tk mt (cs[i + 1 := (s1 + idx, drop idx t1 @ t2, b)])
                             (i + 1) (opt @ [(s1, take idx t1, a)])))))"
  using assms
  by (subst optimize_loop.simps) (simp add: Let_def split: sum.splits option.splits prod.splits)

lemma optimize_loop_done:
  "\<not> i < length cs - 1 \<Longrightarrow> optimize_loop U tk mt cs i opt = Inr (cs, i, opt)"
  by (subst optimize_loop.simps) simp

lemma optimize_loop_ok:
  "list_all (chunk_ok tk mt) cs \<Longrightarrow> list_all (chunk_ok tk mt) opt \<Longrightarrow>
   optimize_loop U tk mt cs i opt = Inr (cs', i', opt') \<Longrightarrow>
   list_all (chunk_ok tk mt) cs' \<and> list_all (chunk_ok tk mt) opt'"
proof (induction "length cs - i" arbitrary: cs i opt rule: less_induct)
  case less
  show ?case
  proof (cases "i < length cs - 1")
    case False
    with less.prems show ?thesis by (simp add: optimize_loop_done)
  next
    case True
    obtain s1 t1 n1 where c1: "cs ! i = (s1, t1, n1)" by (cases "cs ! i") auto
    obtain s2 t2 n2 where c2: "cs ! (i + 1) = (s2, t2, n2)" by (cases "cs ! (i + 1)") auto
    note step = less.prems(3) [unfolded optimize_loop_step [OF True c1 c2]]
    from True have il: "i < length cs" by simp
    from less.prems(1) il have "chunk_ok tk mt (cs ! i)" by (simp add: list_all_length)
    then have ok1: "chunk_ok tk mt (s1, t1, n1)" by (simp add: c1)
    from step obtain ct where ct: "get_token_count tk mt (t1 @ t2) = Inr ct"
      by (cases "get_token_count tk mt (t1 @ t2)") auto
    show ?thesis
    proof (cases "ct \<le> mt")
      case fits: True
      from step ct fits
      have r: "optimize_loop U tk mt cs (i + 2) (opt @ [(s1, t1 @ t2, ct)]) = Inr (cs', i', opt')"
        by simp
      have "list_all (chunk_ok tk mt) (opt @ [(s1, t1 @ t2, ct)])"
        using less.prems(2) ct fits by (simp add: chunk_ok_single)
      from less.hyps [OF _ less.prems(1) this r] True show ?thesis by simp
    next
      case over: False
      from step ct over obtain bi bw
        where fs: "find_split U tk mt t1 t2 (length t1 - 1) (None, - 1) = Inr (bi, bw)"
        by (cases "find_split U tk mt t1 t2 (length t1 - 1) (None, - 1)") auto
      show ?thesis
      proof (cases bi)
        case None
        from step ct over fs None
        have r: "optimize_loop U tk mt cs (i + 1) (opt @ [(s1, t1, n1)]) = Inr (cs', i', opt')"
          by simp
        have "list_all (chunk_ok tk mt) (opt @ [(s1, t1, n1)])"
          using less.prems(2) ok1 by simp
        from less.hyps [OF _ less.prems(1) this r] True show ?thesis by simp
      next
        case (Some idx)
        have "valid_split tk mt t1 t2 idx"
          by (rule find_split_valid [OF fs]) (simp_all add: Some)
        then obtain a b where a: "get_token_count tk mt (take idx t1) = Inr a" "a \<le> mt"
          and b: "get_token_count tk mt (drop idx t1 @ t2) = Inr b" "b \<le> mt"
          by (blast dest: valid_split_counts)
        from step ct over fs Some a b
        have r: "optimize_loop U tk mt (cs[i + 1 := (s1 + idx, drop idx t1 @ t2, b)]) (i + 1)
                   (opt @ [(s1, take idx t1, a)]) = Inr (cs', i', opt')"
          by simp
        have o: "list_all (chunk_ok tk mt) (opt @ [(s1, take idx t1, a)])"
          using less.prems(2) a by (simp add: chunk_ok_single)
        have "set (cs[i + 1 := (s1 + idx, drop idx t1 @ t2, b)])
                \<subseteq> insert (s1 + idx, drop idx t1 @ t2, b) (set cs)"
          by (rule set_update_subset_insert)
        with less.prems(1) b
        have c: "list_all (chunk_ok tk mt) (cs[i + 1 := (s1 + idx, drop idx t1 @ t2, b)])"
          unfolding list_all_iff by (blast intro: chunk_ok_single)
        from less.hyps [OF _ c o r] True show ?thesis by simp
      qed
    qed
  qed
qed

lemma optimize_chunks_ok:
  assumes "list_all (chunk_ok tk mt) cs" and "optimize_chunks U tk mt cs = Inr cs'"
  shows "list_all (chunk_ok tk mt) cs'"
proof (cases "length cs \<le> 1")
  case True
  with assms show ?thesis by (simp add: optimize_chunks_def)
next
  case False
  with assms(2) obtain cs2 i opt where l: "optimize_loop U tk mt cs 0 [] = Inr (cs2, i, opt)"
    and r: "cs' = (let optimized1 = (if i < length cs2 then opt @ [cs2 ! i] else opt) in
                   if length optimized1 \<noteq> 0 \<and> strip U (fst (snd (last optimized1))) = []
                   then butlast optimized1 else optimized1)"
    unfolding optimize_chunks_def by (auto simp: Let_def split: sum.splits if_splits)
  from optimize_loop_ok [OF assms(1) _ l]
  have a: "list_all (chunk_ok tk mt) cs2" and b: "list_all (chunk_ok tk mt) opt" by simp_all
  have "list_all (chunk_ok tk mt) (if i < length cs2 then opt @ [cs2 ! i] else opt)"
    using a b by (auto simp: list_all_iff)
  then show ?thesis unfolding r Let_def
    by (auto simp: list_all_iff dest: in_set_butlastD)
qed

lemma split_text_into_chunks_ok:
  assumes "split_text_into_chunks U t tk max_tokens optimize = Inr cs"
  shows "\<exists>n. max_tokens = PyInt n \<and> 0 < n \<and> list_all (chunk_ok tk (nat n)) cs"
proof -
  from assms obtain n where n: "max_tokens = PyInt n" "0 < n"
    unfolding split_text_into_chunks_def by (auto split: py_value.splits if_splits)
  from assms n obtain ics where i: "split_by_weight U tk (nat n) t 4 0 = Inr ics"
    and o: "cs = ics \<or> optimize_chunks U tk (nat n) ics = Inr cs"
    unfolding split_text_into_chunks_def by (auto split: sum.splits if_splits)
  from split_by_weight_ok [OF i] have "list_all (chunk_ok tk (nat n)) ics" .
  with o have "list_all (chunk_ok tk (nat n)) cs" by (auto dest: optimize_chunks_ok)
  with n show ?thesis by simp
qed

lemma run_three_paragraphs:
  "split_text_into_chunks ascii_unicode [0x61, 0x0A, 0x62, 0x0A, 0x63, 0x0A]
     (counting_tokenizer 4) (PyInt 10) True
   = Inr [(0, [0x61, 0x0A, 0x62, 0x0A], 8), (4, [0x63, 0x0A], 6)]"
  by code_simp


text \<open>
  Claim C1. Whenever \<open>split_text_into_chunks\<close> returns chunks (for any text, tokenizer
  and optimize flag), \<open>max_tokens\<close> is a positive integer and the \<open>token_count\<close> of every
  returned chunk is at most \<open>max_tokens\<close>.
\<close>

theorem token_count_within_budget:
  "split_text_into_chunks U t tokenizer max_tokens optimize = Inr cs \<Longrightarrow>
   \<exists>n. max_tokens = PyInt n \<and> 0 < n \<and> (\<forall>c\<in>set cs. int (token_count c) \<le> n)"
  by (drule split_text_into_chunks_ok) (fastforce simp: list_all_iff chunk_ok_def le_nat_iff)

theorem token_count_within_budget_witness:
  "split_text_into_chunks ascii_unicode [0x61, 0x0A, 0x62, 0x0A, 0x63, 0x0A]
     (counting_tokenizer 4) (PyInt 10) True
   = Inr [(0, [0x61, 0x0A, 0x62, 0x0A], 8), (4, [0x63, 0x0A], 6)]
   \<and> int (token_count (0, [0x61, 0x0A, 0x62, 0x0A], 8)) \<le> 10
   \<and> int (token_count (4, [0x63, 0x0A], 6)) \<le> 10"
  using token_count_within_budget [OF run_three_paragraphs] run_three_paragraphs by simp




section \<open>Termination and recursion depth\<close>

lemma scan_step_lowest:
  "scan_step sub U tk mt t 0 i st = scan_step sub' U tk mt t 0 i st"
  by (auto simp: scan_step_def Let_def split: sum.splits)

lemma scan_unfold:
  "i < length t \<Longrightarrow>
   scan sub U tk mt t w i st =
     (case scan_step sub U tk mt t w i st of
        Inl e \<Rightarrow> Inl e
      | Inr st' \<Rightarrow> scan sub U tk mt t w (i + 1) st')"
  by (subst scan.simps) simp

lemma scan_done: "\<not> i < length t \<Longrightarrow> scan sub U tk mt t w i st = Inr st"
  by (subst scan.simps) simp

lemma scan_lowest: "scan sub U tk mt t 0 i st = scan sub' U tk mt t 0 i st"
proof (induction "length t - i" arbitrary: i st rule: less_induct)
  case less
  show ?case
  proof (cases "i < length t")
    case True
    have "\<And>st'. scan sub U tk mt t 0 (i + 1) st' = scan sub' U tk mt t 0 (i + 1) st'"
      using True by (intro less.hyps) simp
    with True show ?thesis
      by (simp add: scan_unfold scan_step_lowest [of sub _ _ _ _ _ _ sub'] split: sum.splits)
  next
    case False
    then show ?thesis by (simp add: scan_done)
  qed
qed

lemma handle_remaining_lowest:
  "handle_remaining sub tk mt t 0 st = handle_remaining sub' tk mt t 0 st"
  by (auto simp: handle_remaining_def Let_def split: sum.splits)

lemma split_level_lowest:
  "split_level sub U tk mt t 0 start = split_level sub' U tk mt t 0 start"
  by (simp add: split_level_def scan_lowest [of sub _ _ _ _ _ _ sub']
        handle_remaining_lowest [of sub _ _ _ _ sub'] split: sum.splits)

text \<open>
  Claim C9. Every function of the model is total: the scanning loop terminates because
  \<open>len(text) - i\<close> decreases, and \<open>split_by_weight\<close> recurses on the weight alone, each
  recursive call being made at \<open>weight - 1\<close> and only under the guard \<open>weight > 0\<close>. So
  the result of \<open>split_by_weight\<close> is an error or a chunk list on every input, and the
  nesting depth of its calls is at most \<open>weight + 1\<close>: unrolling the recursion
  \<open>weight + 1\<close> levels gives the result, whatever a call nested deeper would return.
  For the initial call (weight 4) the depth is at most 5. At weight 0 no recursive call
  is made.
\<close>

theorem recursion_depth_bounded:
  "split_by_weight U tokenizer max_tokens t weight start_idx =
     split_unrolled (Suc weight) deeper U tokenizer max_tokens t weight start_idx
   \<and> split_by_weight U tokenizer max_tokens t PARAGRAPH_SEPARATOR_WEIGHT 0 =
     split_unrolled 5 deeper U tokenizer max_tokens t PARAGRAPH_SEPARATOR_WEIGHT 0
   \<and> split_level sub U tokenizer max_tokens t NO_WEIGHT start_idx =
     split_level sub' U tokenizer max_tokens t NO_WEIGHT start_idx"
proof -
  have depth: "split_by_weight U tokenizer max_tokens t weight start_idx =
     split_unrolled (Suc weight) deeper U tokenizer max_tokens t weight start_idx"
    for t weight start_idx
  proof (induction weight arbitrary: t start_idx)
    case 0
    show ?case by (simp add: split_level_lowest [of "\<lambda>segment start. Inr []"])
  next
    case (Suc weight)
    have "split_unrolled (Suc (Suc weight)) deeper U tokenizer max_tokens t (Suc weight) start_idx =
          split_level
            (\<lambda>segment start.
                split_unrolled (Suc weight) deeper U tokenizer max_tokens segment weight start)
            U tokenizer max_tokens t (Suc weight) start_idx"
      by (simp only: split_unrolled.simps(2) [of "Suc weight"] diff_Suc_1)
    also have "\<dots> = split_by_weight U tokenizer max_tokens t (Suc weight) start_idx"
      by (simp only: Suc.IH [symmetric] split_by_weight.simps)
    finally show ?case by (rule sym)
  qed
  have "split_by_weight U tokenizer max_tokens t PARAGRAPH_SEPARATOR_WEIGHT 0 =
     split_unrolled (Suc 4) deeper U tokenizer max_tokens t PARAGRAPH_SEPARATOR_WEIGHT 0"
    by (rule depth)
  moreover have "Suc 4 = 5" by simp
  ultimately show ?thesis
    using depth [of t weight start_idx] split_level_lowest [of sub U tokenizer max_tokens t start_idx sub']
    by (simp only: simp_thms)
qed

theorem recursion_depth_bounded_witness:
  "split_by_weight ascii_unicode (counting_tokenizer 0) 2 [0x61, 0x0A, 0x62] 4 0 =
     split_unrolled 5 (\<lambda>segment weight start. Inl TokenizerError) ascii_unicode
       (counting_tokenizer 0) 2 [0x61, 0x0A, 0x62] 4 0"
  by (rule recursion_depth_bounded
          [of ascii_unicode "counting_tokenizer 0" 2 "[0x61, 0x0A, 0x62]" 4 0
              "\<lambda>segment weight start. Inl TokenizerError", THEN conjunct2, THEN conjunct1])

section \<open>The redistribution step of the optimizer\<close>










section \<open>Order, contiguity and coverage of the chunks\<close>

text \<open>
  The text \<open>a\nb\<close> with one token per code point and \<open>max_tokens = 2\<close>. The scan builds
  the chunk \<open>a\n\<close>; the remaining \<open>b\<close> does not fit into it, so the block for the
  remaining text appends \<open>a\n\<close> and then \<open>b\<close> to the output, but leaves \<open>current_chunk\<close>
  as it is, and the final block appends \<open>a\n\<close> a second time, at the start index of \<open>b\<close>.

  Claim C4 fails on this input: without the optimizer, the texts of the returned chunks
  concatenate to \<open>a\nba\n\<close>, not to the input.
\<close>

theorem remaining_text_chunk_emitted_twice:
  "split_text_into_chunks ascii_unicode [0x61, 0x0A, 0x62] (counting_tokenizer 0) (PyInt 2) False
   = Inr [(0, [0x61, 0x0A], 2), (2, [0x62], 1), (2, [0x61, 0x0A], 2)]
   \<and> concat (map chunk_text [(0, [0x61, 0x0A], 2), (2, [0x62], 1), (2, [0x61, 0x0A], 2)])
     = [0x61, 0x0A, 0x62, 0x61, 0x0A]"
  by code_simp

text \<open>
  Claim C3 fails on the same input: with the optimizer the same three chunks are
  returned, the last two both at start index 2, so the start indices are not strictly
  increasing and the third chunk does not start where the second ends.
\<close>

theorem repeated_chunk_survives_optimizer:
  "split_text_into_chunks ascii_unicode [0x61, 0x0A, 0x62] (counting_tokenizer 0) (PyInt 2) True
   = Inr [(0, [0x61, 0x0A], 2), (2, [0x62], 1), (2, [0x61, 0x0A], 2)]
   \<and> start_offset (2, [0x62], 1) + length (chunk_text (2, [0x62], 1)) = (3 :: nat)
   \<and> start_offset (2, [0x61, 0x0A], 2) = (2 :: nat)"
  by code_simp

section \<open>A text that fits the budget\<close>











section \<open>Text that cannot be split within the budget\<close>

text \<open>
  Claim C6, as stated, fails: a character whose own count exceeds \<open>max_tokens\<close> does not
  force an error when a longer span containing it is counted within the budget. With a
  tokenizer that needs two tokens for the lone \<open>a\<close> but one token for \<open>ab\<close>, the text
  \<open>ab\<close> and \<open>max_tokens = 1\<close> give the single chunk \<open>ab\<close>; the character \<open>a\<close> is
  never counted on its own.
\<close>

theorem unfit_character_raises_counterexample:
  "get_token_count merging_tokenizer 1 [0x61] = Inr 2
   \<and> split_text_into_chunks ascii_unicode [0x61, 0x62] merging_tokenizer (PyInt 1) True
       = Inr [(0, [0x61, 0x62], 1)]
   \<and> split_text_into_chunks ascii_unicode [0x61, 0x62] merging_tokenizer (PyInt 1) False
       = Inr [(0, [0x61, 0x62], 1)]"
  by code_simp

lemma sublist_trans': "sublist xs ys \<Longrightarrow> sublist ys zs \<Longrightarrow> sublist xs zs"
  unfolding sublist_def by (metis append.assoc)

lemma sublist_slice: "sublist (slice t a b) t"
  unfolding slice_def by (rule sublist_trans' [OF sublist_drop sublist_take])

lemma unfit_char_sublist:
  "unfit_char tk mt t c \<Longrightarrow> sublist seg t \<Longrightarrow> c \<in> set seg \<Longrightarrow> unfit_char tk mt seg c"
  unfolding unfit_char_def by (blast intro: sublist_trans')

lemma unfit_char_count:
  "unfit_char tk mt t c \<Longrightarrow> sublist seg t \<Longrightarrow> c \<in> set seg \<Longrightarrow>
   \<exists>k. get_token_count tk mt seg = Inr k \<and> mt < k"
  unfolding unfit_char_def by blast

lemma drop_slice: "a \<le> b \<Longrightarrow> drop a t = slice t a b @ drop b t"
  unfolding slice_def
  by (metis append_take_drop_id drop_append drop_take length_take min.absorb2 min_def
        drop_all append_Nil le_add_diff_inverse drop_drop add.commute)


lemma scan_step_error_kind:
  assumes "never_fails tk mt"
    and "\<forall>seg s e. 0 < w \<longrightarrow> sub seg s = Inl e \<longrightarrow> unsplittable_error e"
    and "scan_step sub U tk mt t w i st = Inl e"
  shows "unsplittable_error e"
proof -
  obtain k where "get_token_count tk mt (slice t (current_pos st) (i + 1)) = Inr k"
    using assms(1) unfolding never_fails_def by blast
  with assms(2,3) show ?thesis
    by (auto simp: scan_step_def Let_def unsplittable_error_def split: if_splits sum.splits)
qed

lemma scan_error_kind:
  assumes "never_fails tk mt"
    and "\<forall>seg s e. 0 < w \<longrightarrow> sub seg s = Inl e \<longrightarrow> unsplittable_error e"
  shows "scan sub U tk mt t w i st = Inl e \<Longrightarrow> unsplittable_error e"
proof (induction "length t - i" arbitrary: i st rule: less_induct)
  case less
  show ?case
  proof (cases "i < length t")
    case True
    show ?thesis
    proof (cases "scan_step sub U tk mt t w i st")
      case (Inl e')
      with less.prems True have "e' = e" by (simp add: scan_unfold)
      with Inl have "scan_step sub U tk mt t w i st = Inl e" by simp
      then show ?thesis by (rule scan_step_error_kind [OF assms])
    next
      case (Inr st1)
      with less.prems True have "scan sub U tk mt t w (i + 1) st1 = Inl e"
        by (simp add: scan_unfold)
      with True show ?thesis by (intro less.hyps [of "i + 1" st1]) simp_all
    qed
  next
    case False
    with less.prems show ?thesis by (simp add: scan_done)
  qed
qed

lemma handle_remaining_error_kind:
  assumes "never_fails tk mt"
    and "\<forall>seg s e. 0 < w \<longrightarrow> sub seg s = Inl e \<longrightarrow> unsplittable_error e"
    and "handle_remaining sub tk mt t w st = Inl e"
  shows "unsplittable_error e"
proof -
  obtain k where "get_token_count tk mt (drop (current_pos st) t) = Inr k"
    using assms(1) unfolding never_fails_def by blast
  with assms(2,3) show ?thesis
    by (auto simp: handle_remaining_def Let_def unsplittable_error_def split: if_splits sum.splits)
qed

lemma split_level_error_kind:
  assumes "never_fails tk mt"
    and "\<forall>seg s e. 0 < w \<longrightarrow> sub seg s = Inl e \<longrightarrow> unsplittable_error e"
    and "split_level sub U tk mt t w s = Inl e"
  shows "unsplittable_error e"
proof -
  let ?st0 = "\<lparr>chunks = [], current_pos = 0, current_chunk = [], current_chunk_tokens = 0,
              current_chunk_start = s\<rparr>"
  show ?thesis
  proof (cases "scan sub U tk mt t w 0 ?st0")
    case (Inl e')
    with assms(3) have "e' = e" by (simp add: split_level_def)
    with Inl have "scan sub U tk mt t w 0 ?st0 = Inl e" by simp
    then show ?thesis by (rule scan_error_kind [OF assms(1,2)])
  next
    case (Inr st)
    with assms(3) have "handle_remaining sub tk mt t w st = Inl e"
      by (simp add: split_level_def split: sum.splits)
    then show ?thesis by (rule handle_remaining_error_kind [OF assms(1,2)])
  qed
qed

lemma split_by_weight_error_kind:
  "never_fails tk mt \<Longrightarrow> split_by_weight U tk mt t w s = Inl e \<Longrightarrow> unsplittable_error e"
proof (induction w arbitrary: t s e)
  case 0
  from "0.prems"(2) have "split_level (\<lambda>segment start. Inr []) U tk mt t 0 s = Inl e" by simp
  then show ?case by (rule split_level_error_kind [OF "0.prems"(1), rotated]) simp
next
  case (Suc w)
  from Suc.prems(2)
  have "split_level (\<lambda>segment start. split_by_weight U tk mt segment w start) U tk mt t (Suc w) s
          = Inl e" by simp
  then show ?case
    by (rule split_level_error_kind [OF Suc.prems(1), rotated]) (auto dest: Suc.IH [OF Suc.prems(1)])
qed


lemma scan_step_unfit:
  assumes nf: "never_fails tk mt" and unfit: "unfit_char tk mt t c"
    and sub: "\<forall>seg s. 0 < w \<longrightarrow> sublist seg t \<longrightarrow> c \<in> set seg \<longrightarrow> (\<exists>e. sub seg s = Inl e)"
    and c: "c \<in> set (drop (current_pos st) t)" and pos: "current_pos st \<le> i"
  shows "(\<exists>e. scan_step sub U tk mt t w i st = Inl e)
         \<or> (\<exists>st'. scan_step sub U tk mt t w i st = Inr st'
               \<and> c \<in> set (drop (current_pos st') t) \<and> current_pos st' \<le> i + 1)"
proof (cases "w \<le> get_weight U (t ! i)")
  case False
  with c pos show ?thesis by (simp add: scan_step_def)
next
  case True
  let ?seg = "slice t (current_pos st) (i + 1)"
  obtain k where k: "get_token_count tk mt ?seg = Inr k"
    using nf unfolding never_fails_def by blast
  show ?thesis
  proof (cases "c \<in> set ?seg")
    case inside: True
    from unfit_char_count [OF unfit sublist_slice inside] k have big: "mt < k" by simp
    show ?thesis
    proof (cases "0 < w")
      case pos_w: True
      have ex: "\<exists>e. sub ?seg s = Inl e" for s
        using sub pos_w inside sublist_slice by blast
      show ?thesis
        using True big k pos_w ex [of "current_chunk_start st"]
          ex [of "current_chunk_start st + length (concat (current_chunk st))"]
        by (auto simp: scan_step_def Let_def)
    next
      case False
      with True big k show ?thesis by (simp add: scan_step_def Let_def)
    qed
  next
    case outside: False
    from pos have "drop (current_pos st) t = ?seg @ drop (i + 1) t"
      by (intro drop_slice) simp
    with c outside have "c \<in> set (drop (i + 1) t)" by simp
    with True k show ?thesis
      by (auto simp: scan_step_def Let_def split: sum.splits)
  qed
qed


lemma scan_unfit:
  assumes nf: "never_fails tk mt" and unfit: "unfit_char tk mt t c"
    and sub: "\<forall>seg s. 0 < w \<longrightarrow> sublist seg t \<longrightarrow> c \<in> set seg \<longrightarrow> (\<exists>e. sub seg s = Inl e)"
  shows "c \<in> set (drop (current_pos st) t) \<Longrightarrow> current_pos st \<le> i \<Longrightarrow>
         (\<exists>e. scan sub U tk mt t w i st = Inl e)
         \<or> (\<exists>st'. scan sub U tk mt t w i st = Inr st' \<and> c \<in> set (drop (current_pos st') t))"
proof (induction "length t - i" arbitrary: i st rule: less_induct)
  case less
  show ?case
  proof (cases "i < length t")
    case False
    with less.prems show ?thesis by (simp add: scan_done)
  next
    case True
    from scan_step_unfit [OF nf unfit sub less.prems, of U]
    consider e where "scan_step sub U tk mt t w i st = Inl e"
      | st1 where "scan_step sub U tk mt t w i st = Inr st1"
          "c \<in> set (drop (current_pos st1) t)" "current_pos st1 \<le> i + 1"
      by blast
    then show ?thesis
    proof cases
      case 1
      with True show ?thesis by (simp add: scan_unfold)
    next
      case 2
      from True have "length t - (i + 1) < length t - i" by simp
      from less.hyps [OF this 2(2,3)] 2(1) True show ?thesis by (simp add: scan_unfold)
    qed
  qed
qed

lemma handle_remaining_unfit:
  assumes nf: "never_fails tk mt" and unfit: "unfit_char tk mt t c"
    and sub: "\<forall>seg s. 0 < w \<longrightarrow> sublist seg t \<longrightarrow> c \<in> set seg \<longrightarrow> (\<exists>e. sub seg s = Inl e)"
    and c: "c \<in> set (drop (current_pos st) t)"
  shows "\<exists>e. handle_remaining sub tk mt t w st = Inl e"
proof -
  let ?rem = "drop (current_pos st) t"
  from c have lt: "current_pos st < length t" by (cases "current_pos st < length t") auto
  from unfit_char_count [OF unfit sublist_drop c] obtain k
    where k: "get_token_count tk mt ?rem = Inr k" "mt < k" by blast
  show ?thesis
  proof (cases "0 < w")
    case True
    have ex: "\<exists>e. sub ?rem s = Inl e" for s
      using sub True c sublist_drop by blast
    show ?thesis
      using lt k True ex [of "current_chunk_start st"]
        ex [of "current_chunk_start st + length (concat (current_chunk st))"]
      by (auto simp: handle_remaining_def Let_def)
  next
    case False
    with lt k show ?thesis by (simp add: handle_remaining_def Let_def)
  qed
qed

lemma split_level_unfit:
  assumes nf: "never_fails tk mt" and unfit: "unfit_char tk mt t c"
    and sub: "\<forall>seg s. 0 < w \<longrightarrow> sublist seg t \<longrightarrow> c \<in> set seg \<longrightarrow> (\<exists>e. sub seg s = Inl e)"
  shows "\<exists>e. split_level sub U tk mt t w s = Inl e"
proof -
  let ?st0 = "\<lparr>chunks = [], current_pos = 0, current_chunk = [], current_chunk_tokens = 0,
              current_chunk_start = s\<rparr>"
  from unfit have "c \<in> set (drop (current_pos ?st0) t)" by (simp add: unfit_char_def)
  from scan_unfit [OF nf unfit sub this, of 0 U]
  consider e where "scan sub U tk mt t w 0 ?st0 = Inl e"
    | st where "scan sub U tk mt t w 0 ?st0 = Inr st" "c \<in> set (drop (current_pos st) t)"
    by auto
  then show ?thesis
  proof cases
    case 1
    then show ?thesis by (simp add: split_level_def)
  next
    case 2
    from handle_remaining_unfit [OF nf unfit sub 2(2)] 2(1) show ?thesis
      by (auto simp: split_level_def)
  qed
qed

lemma split_by_weight_unfit:
  "never_fails tk mt \<Longrightarrow> unfit_char tk mt t c \<Longrightarrow> \<exists>e. split_by_weight U tk mt t w s = Inl e"
proof (induction w arbitrary: t s)
  case 0
  then show ?case by (simp add: split_level_unfit)
next
  case (Suc w)
  have "\<forall>seg s. 0 < Suc w \<longrightarrow> sublist seg t \<longrightarrow> c \<in> set seg \<longrightarrow>
          (\<exists>e. split_by_weight U tk mt seg w s = Inl e)"
    using Suc.IH [OF Suc.prems(1) unfit_char_sublist [OF Suc.prems(2)]] by blast
  from split_level_unfit [OF Suc.prems this] show ?case by simp
qed

text \<open>
  Claim C6, amended. If the tokenizer itself never raises and the text contains a
  character such that every contiguous span of the text containing it is counted above
  \<open>max_tokens\<close> (as for a text that consists of one such character, or for any text
  containing it when a longer span never counts less), then \<open>split_text_into_chunks\<close>
  raises one of the two "Cannot split \<dots>" \<open>ValueError\<close>s and returns no chunks.
\<close>

theorem unfit_character_raises:
  assumes "0 < max_tokens" and "never_fails tokenizer (nat max_tokens)"
    and "unfit_char tokenizer (nat max_tokens) t c"
  shows "\<exists>e. split_text_into_chunks U t tokenizer (PyInt max_tokens) optimize = Inl e
             \<and> unsplittable_error e"
proof -
  from split_by_weight_unfit [OF assms(2,3)] obtain e
    where e: "split_by_weight U tokenizer (nat max_tokens) t PARAGRAPH_SEPARATOR_WEIGHT 0 = Inl e"
    by blast
  from split_by_weight_error_kind [OF assms(2) e] have "unsplittable_error e" .
  with e assms(1) show ?thesis by (simp add: split_text_into_chunks_def)
qed

theorem unfit_character_raises_witness:
  "(\<exists>e. split_text_into_chunks ascii_unicode [0x61, 0x0A, 0x62] (counting_tokenizer 2) (PyInt 2) True
          = Inl e
        \<and> unsplittable_error e)
   \<and> (\<exists>e. split_text_into_chunks ascii_unicode [0x61] merging_tokenizer (PyInt 1) False = Inl e
        \<and> unsplittable_error e)"
proof -
  have nf: "never_fails (counting_tokenizer 2) (nat 2)"
    by (simp add: never_fails_def get_token_count_def counting_tokenizer_def)
  have uc: "unfit_char (counting_tokenizer 2) (nat 2) [0x61, 0x0A, 0x62] 0x61"
    unfolding unfit_char_def
    by (auto simp: get_token_count_def counting_tokenizer_def dest!: length_pos_if_in_set)
  have nf': "never_fails merging_tokenizer (nat 1)"
    by (simp add: never_fails_def get_token_count_def merging_tokenizer_def)
  have uc': "unfit_char merging_tokenizer (nat 1) [0x61] 0x61"
    unfolding unfit_char_def
    by (auto simp: get_token_count_def merging_tokenizer_def sublist_Cons_right prefix_Cons)
  show ?thesis
    using unfit_character_raises [OF _ nf uc, of ascii_unicode True]
          unfit_character_raises [OF _ nf' uc', of ascii_unicode False]
    by simp
qed

end
